theory Spec2Isabelle
  imports Main "HOL-Library.AList"
begin

section \<open>The desktop shell (main.js) as an event-driven state machine\<close>

text \<open>
  main.js is a set of event handlers over two module-level variables,
  \<^verbatim>\<open>flaskProcess\<close> and \<^verbatim>\<open>mainWindow\<close>. Each handler is embedded as a function on the
  shell's state. Calls into the platform (spawn, console, BrowserWindow, loadURL, kill,
  app.quit) are recorded, with the time of the call, in a trace; what the platform hands
  back to the program (the events) is the input.
\<close>

subsection \<open>Data\<close>

type_synonym env = "(string \<times> string) list"

text \<open>The arguments of \<^verbatim>\<open>spawn(command, args, {cwd, env})\<close>.\<close>

record child_process =
  command :: string
  args :: "string list"
  cwd :: string
  env :: env

text \<open>The options object of \<^verbatim>\<open>new BrowserWindow({...})\<close>.\<close>

record window_options =
  width :: nat
  height :: nat
  icon :: string
  nodeIntegration :: bool
  contextIsolation :: bool
  title :: string
  backgroundColor :: string

text \<open>What the program reads from its host: \<^verbatim>\<open>__dirname\<close>, \<^verbatim>\<open>process.env\<close> and the
  platform it runs on (which main.js never consults).\<close>

record host =
  dirname :: string
  process_env :: env
  platform :: string

text \<open>The two functions main.js passes to \<^verbatim>\<open>setTimeout\<close>: the promise's \<^verbatim>\<open>resolve\<close>, and
  the arrow function of the did-fail-load handler that loads the URL again.\<close>

datatype callback = Resolve | RetryLoad

text \<open>The promise returned by \<^verbatim>\<open>startFlaskServer\<close>, awaited by the ready handler.\<close>

datatype promise_state = NotCreated | Pending | Resolved | Rejected string

datatype effect =
    Spawn child_process
  | ConsoleLog string
  | ConsoleError string
  | NewBrowserWindow nat window_options
  | LoadURL nat string
  | Kill
  | AppQuit
  | Throw string

record shell =
  host :: host
  flaskProcess :: "child_process option"
  mainWindow :: "nat option"
  promise :: promise_state
  timers :: "(nat \<times> callback) list"
  now :: nat
  windows :: nat
  listening :: "nat list"
  trace :: "(nat \<times> effect) list"

text \<open>
  \<open>now\<close> is the clock in milliseconds; \<open>timers\<close> holds the pending \<^verbatim>\<open>setTimeout\<close> calls with
  the time each is due; \<open>windows\<close> counts the BrowserWindow objects constructed so far (a
  window is named by its number); \<open>listening\<close> lists the windows that carry the closed and
  did-fail-load listeners of \<^verbatim>\<open>createWindow\<close> and are not destroyed yet.
\<close>

definition init :: "host \<Rightarrow> shell" where
  "init h = \<lparr>host = h, flaskProcess = None, mainWindow = None, promise = NotCreated,
     timers = [], now = 0, windows = 0, listening = [], trace = []\<rparr>"

datatype event =
    AppReady
  | StdoutData string
  | StderrData string
  | ProcessError string
  | Elapse nat
  | Closed nat
  | DidFailLoad nat
  | WindowAllClosed
  | Activate
  | Quit

subsection \<open>Platform calls\<close>

definition emit :: "effect \<Rightarrow> shell \<Rightarrow> shell" where
  "emit e s = s\<lparr>trace := trace s @ [(now s, e)]\<rparr>"

definition setTimeout :: "callback \<Rightarrow> nat \<Rightarrow> shell \<Rightarrow> shell" where
  "setTimeout cb ms s = s\<lparr>timers := timers s @ [(now s + ms, cb)]\<rparr>"

text \<open>\<^verbatim>\<open>String.prototype.includes\<close>, on the text of one chunk.\<close>

fun startsWith :: "string \<Rightarrow> string \<Rightarrow> bool" where
  "startsWith s [] = True"
| "startsWith [] (p # ps) = False"
| "startsWith (c # cs) (p # ps) = (c = p \<and> startsWith cs ps)"

fun str_includes :: "string \<Rightarrow> string \<Rightarrow> bool" where
  "str_includes [] p = (p = [])"
| "str_includes (c # cs) p = (startsWith (c # cs) p \<or> str_includes cs p)"

text \<open>\<^verbatim>\<open>path.join\<close> of a directory that does not end in a separator and a relative
  path without dot segments.\<close>

definition path_join :: "string \<Rightarrow> string \<Rightarrow> string" where
  "path_join d f = d @ ''/'' @ f"

subsection \<open>createWindow\<close>

definition root_url :: string where
  "root_url = ''http://localhost:5000''"

definition browser_options :: "host \<Rightarrow> window_options" where
  "browser_options h = \<lparr>width = 1200, height = 800,
     icon = path_join (dirname h) ''assets/icon.png'',
     nodeIntegration = False, contextIsolation = True,
     title = ''Chore List App'', backgroundColor = ''#667eea''\<rparr>"

definition createWindow :: "shell \<Rightarrow> shell" where
  "createWindow s =
     (let w = windows s;
          s1 = (emit (NewBrowserWindow w (browser_options (host s))) s)
                 \<lparr>mainWindow := Some w, windows := Suc w\<rparr>;
          s2 = emit (LoadURL w root_url) s1
      in s2\<lparr>listening := listening s2 @ [w]\<rparr>)"

text \<open>The listeners \<^verbatim>\<open>createWindow\<close> registers on the window.\<close>

definition on_closed :: "shell \<Rightarrow> shell" where
  "on_closed s = s\<lparr>mainWindow := None\<rparr>"

definition on_did_fail_load :: "shell \<Rightarrow> shell" where
  "on_did_fail_load s =
     setTimeout RetryLoad 1000 (emit (ConsoleLog ''Failed to load, retrying...'') s)"

text \<open>The body of the retry's arrow function: \<^verbatim>\<open>mainWindow.loadURL(...)\<close>. Reading a
  property of \<^verbatim>\<open>null\<close> throws a TypeError, which nothing catches.\<close>

definition retry_load :: "shell \<Rightarrow> shell" where
  "retry_load s =
     (case mainWindow s of
        None \<Rightarrow> emit (Throw ''TypeError'') s
      | Some w \<Rightarrow> emit (LoadURL w root_url) s)"

subsection \<open>startFlaskServer and the ready handler\<close>

text \<open>The rest of the ready handler after \<^verbatim>\<open>await\<close>: the try block's tail when the
  promise is fulfilled, the catch block when it is rejected. An error is carried as the
  string a template literal makes of it; \<^verbatim>\<open>console.error\<close> with the error as an argument
  of its own prints the inspected object, which is written here as that string too.\<close>

definition on_fulfilled :: "shell \<Rightarrow> shell" where
  "on_fulfilled s = createWindow (emit (ConsoleLog ''Creating window...'') s)"

definition on_rejected :: "string \<Rightarrow> shell \<Rightarrow> shell" where
  "on_rejected err s =
     emit AppQuit (emit (ConsoleError (''Failed to start application: '' @ err)) s)"

text \<open>A promise settles once: \<^verbatim>\<open>resolve\<close> and \<^verbatim>\<open>reject\<close> on a settled promise do
  nothing. The awaiting handler resumes before any other event is handled.\<close>

definition resolve :: "shell \<Rightarrow> shell" where
  "resolve s = (if promise s = Pending then on_fulfilled (s\<lparr>promise := Resolved\<rparr>) else s)"

definition reject :: "string \<Rightarrow> shell \<Rightarrow> shell" where
  "reject err s =
     (if promise s = Pending then on_rejected err (s\<lparr>promise := Rejected err\<rparr>) else s)"

definition flask_child :: "host \<Rightarrow> child_process" where
  "flask_child h = \<lparr>command = ''python3'', args = [''app.py''], cwd = dirname h,
     env = AList.update ''FLASK_ENV'' ''production'' (process_env h)\<rparr>"

definition startFlaskServer :: "shell \<Rightarrow> shell" where
  "startFlaskServer s =
     (let p = flask_child (host s);
          s1 = (emit (Spawn p) s)\<lparr>flaskProcess := Some p, promise := Pending\<rparr>
      in setTimeout Resolve 3000 s1)"

definition on_stdout_data :: "string \<Rightarrow> shell \<Rightarrow> shell" where
  "on_stdout_data d s =
     (let s1 = emit (ConsoleLog (''Flask: '' @ d)) s
      in if str_includes d ''Running on'' then setTimeout Resolve 1000 s1 else s1)"

definition on_stderr_data :: "string \<Rightarrow> shell \<Rightarrow> shell" where
  "on_stderr_data d s = emit (ConsoleError (''Flask Error: '' @ d)) s"

definition on_process_error :: "string \<Rightarrow> shell \<Rightarrow> shell" where
  "on_process_error err s =
     reject err (emit (ConsoleError (''Failed to start Flask: '' @ err)) s)"

definition on_ready :: "shell \<Rightarrow> shell" where
  "on_ready s = startFlaskServer (emit (ConsoleLog ''Starting Flask server...'') s)"

subsection \<open>The other listeners on app\<close>

definition on_window_all_closed :: "shell \<Rightarrow> shell" where
  "on_window_all_closed s =
     emit AppQuit (case flaskProcess s of None \<Rightarrow> s | Some p \<Rightarrow> emit Kill s)"

definition on_activate :: "shell \<Rightarrow> shell" where
  "on_activate s = (if mainWindow s = None then createWindow s else s)"

definition on_quit :: "shell \<Rightarrow> shell" where
  "on_quit s = (case flaskProcess s of None \<Rightarrow> s | Some p \<Rightarrow> emit Kill s)"

subsection \<open>Timers\<close>

fun fire :: "callback \<Rightarrow> shell \<Rightarrow> shell" where
  "fire Resolve s = resolve s"
| "fire RetryLoad s = retry_load s"

text \<open>The pending timer that is due first; of two due at the same time, the one set
  first.\<close>

fun earliest :: "(nat \<times> callback) list \<Rightarrow> (nat \<times> callback) option" where
  "earliest [] = None"
| "earliest (x # xs) =
     (case earliest xs of
        None \<Rightarrow> Some x
      | Some y \<Rightarrow> if fst y < fst x then Some y else Some x)"

lemma earliest_mem: "earliest xs = Some x \<Longrightarrow> x \<in> set xs"
  by (induction xs arbitrary: x) (auto split: option.splits if_splits)

lemma timers_emit [simp]: "timers (emit e s) = timers s"
  by (simp add: emit_def)

lemma timers_createWindow [simp]: "timers (createWindow s) = timers s"
  by (simp add: createWindow_def Let_def)

lemma timers_fire [simp]: "timers (fire cb s) = timers s"
  by (cases cb)
     (simp_all add: resolve_def on_fulfilled_def retry_load_def split: option.splits)

text \<open>Letting time pass until \<open>limit\<close>: every timer due by then runs, in the order they
  are due, each at the time it is due.\<close>

function run_timers :: "nat \<Rightarrow> shell \<Rightarrow> shell" where
  "run_timers limit s =
     (case earliest (timers s) of
        None \<Rightarrow> s\<lparr>now := max (now s) limit\<rparr>
      | Some (t, cb) \<Rightarrow>
          if t \<le> limit
          then run_timers limit
                 (fire cb (s\<lparr>now := max (now s) t, timers := remove1 (t, cb) (timers s)\<rparr>))
          else s\<lparr>now := max (now s) limit\<rparr>)"
  by pat_completeness auto
termination
proof (relation "measure (\<lambda>(limit, s). length (timers s))")
  show "wf (measure (\<lambda>(limit, s). length (timers s)))"
    by simp
next
  fix limit :: nat and s :: shell and x2 :: "nat \<times> callback" and t :: nat and cb :: callback
  assume e: "earliest (timers s) = Some x2" and x: "(t, cb) = x2"
  from e x have "(t, cb) \<in> set (timers s)"
    by (simp add: earliest_mem)
  then have "length (remove1 (t, cb) (timers s)) < length (timers s)"
    by (simp add: length_remove1) (cases "timers s"; simp)
  then show "((limit, fire cb (s\<lparr>now := max (now s) t,
                 timers := remove1 (t, cb) (timers s)\<rparr>)), (limit, s))
             \<in> measure (\<lambda>(limit, s). length (timers s))"
    by simp
qed

declare run_timers.simps [simp del]

subsection \<open>The event loop\<close>

text \<open>
  One event, handled by the listener main.js registers for it. An event that has no
  listener yet, or no longer, changes nothing: the listeners on the child process exist
  once \<^verbatim>\<open>startFlaskServer\<close> has run, those on a window from \<^verbatim>\<open>createWindow\<close> until the
  window is destroyed. Electron emits ready once.

  Which events Electron emits, and when it ends the process, is not part of main.js and
  not part of \<open>step\<close>: a run is any list of events. In particular \<open>step\<close> does not emit
  window-all-closed when the last window closes, nor quit after \<^verbatim>\<open>app.quit()\<close>, and it
  goes on handling events after them. A statement about all runs holds of the runs
  Electron produces; a statement about one run names a run Electron produces, with
  window-all-closed and quit written out where they occur.
\<close>

fun step :: "event \<Rightarrow> shell \<Rightarrow> shell" where
  "step AppReady s = (if promise s = NotCreated then on_ready s else s)"
| "step (StdoutData d) s = (if flaskProcess s = None then s else on_stdout_data d s)"
| "step (StderrData d) s = (if flaskProcess s = None then s else on_stderr_data d s)"
| "step (ProcessError err) s = (if flaskProcess s = None then s else on_process_error err s)"
| "step (Elapse d) s = run_timers (now s + d) s"
| "step (Closed w) s =
     (if w \<in> set (listening s)
      then on_closed (s\<lparr>listening := removeAll w (listening s)\<rparr>) else s)"
| "step (DidFailLoad w) s = (if w \<in> set (listening s) then on_did_fail_load s else s)"
| "step WindowAllClosed s = on_window_all_closed s"
| "step Activate s = on_activate s"
| "step Quit s = on_quit s"

fun run :: "event list \<Rightarrow> shell \<Rightarrow> shell" where
  "run [] s = s"
| "run (e # es) s = run es (step e s)"

section \<open>Observations on a run\<close>

text \<open>A host to run the program on.\<close>

definition example_host :: host where
  "example_host = \<lparr>dirname = ''/opt/chore-list-app'',
     process_env = [(''PATH'', ''/usr/bin''), (''FLASK_ENV'', ''development'')],
     platform = ''darwin''\<rparr>"

text \<open>The state right after the ready event.\<close>

definition started :: "host \<Rightarrow> shell" where
  "started h = step AppReady (init h)"

text \<open>The child process exists: \<^verbatim>\<open>startFlaskServer\<close> has run.\<close>

definition spawned :: "child_process \<Rightarrow> shell \<Rightarrow> bool" where
  "spawned p s \<longleftrightarrow> flaskProcess s = Some p \<and> promise s \<noteq> NotCreated"

subsection \<open>Platform calls in the trace\<close>

fun is_spawn :: "effect \<Rightarrow> bool" where
  "is_spawn (Spawn p) = True"
| "is_spawn _ = False"

fun is_load :: "effect \<Rightarrow> bool" where
  "is_load (LoadURL w u) = True"
| "is_load _ = False"

fun is_throw :: "effect \<Rightarrow> bool" where
  "is_throw (Throw m) = True"
| "is_throw _ = False"

fun is_new_window :: "effect \<Rightarrow> bool" where
  "is_new_window (NewBrowserWindow w opts) = True"
| "is_new_window _ = False"

fun url_of :: "effect \<Rightarrow> string list" where
  "url_of (LoadURL w u) = [u]"
| "url_of _ = []"

definition spawns :: "shell \<Rightarrow> (nat \<times> effect) list" where
  "spawns s = filter (\<lambda>(t, e). is_spawn e) (trace s)"

text \<open>How often \<^verbatim>\<open>flaskProcess.kill()\<close> has been called. Each call sends SIGTERM to the
  child as long as the child has not exited.\<close>

definition kills :: "shell \<Rightarrow> nat" where
  "kills s = length (filter (\<lambda>(t, e). e = Kill) (trace s))"

definition quits :: "shell \<Rightarrow> nat" where
  "quits s = length (filter (\<lambda>(t, e). e = AppQuit) (trace s))"

definition loaded_urls :: "shell \<Rightarrow> string list" where
  "loaded_urls s = concat (map (\<lambda>(t, e). url_of e) (trace s))"

definition load_times :: "shell \<Rightarrow> nat list" where
  "load_times s = map fst (filter (\<lambda>(t, e). is_load e) (trace s))"

text \<open>The times at which a BrowserWindow was constructed, and the times at which the ready
  handler went on after its \<^verbatim>\<open>await\<close> (it logs this line and calls \<^verbatim>\<open>createWindow\<close>).\<close>

definition opened :: "shell \<Rightarrow> nat list" where
  "opened s = map fst (filter (\<lambda>(t, e). is_new_window e) (trace s))"

definition resumed :: "shell \<Rightarrow> nat list" where
  "resumed s = map fst (filter (\<lambda>(t, e). e = ConsoleLog ''Creating window...'') (trace s))"

subsection \<open>Load failures and retries\<close>

text \<open>Calls of \<^verbatim>\<open>loadURL\<close>, those that threw included; windows constructed; runs of the
  did-fail-load handler (it logs this line); retries set and not yet run.\<close>

definition load_calls :: "shell \<Rightarrow> nat" where
  "load_calls s = length (filter (\<lambda>(t, e). is_load e \<or> is_throw e) (trace s))"

definition windows_created :: "shell \<Rightarrow> nat" where
  "windows_created s = length (filter (\<lambda>(t, e). is_new_window e) (trace s))"

definition load_failures :: "shell \<Rightarrow> nat" where
  "load_failures s =
     length (filter (\<lambda>(t, e). e = ConsoleLog ''Failed to load, retrying...'') (trace s))"

definition pending_retries :: "shell \<Rightarrow> nat" where
  "pending_retries s = length (filter (\<lambda>(t, cb). cb = RetryLoad) (timers s))"

definition balanced :: "shell \<Rightarrow> bool" where
  "balanced s \<longleftrightarrow>
     load_calls s + pending_retries s = windows_created s + load_failures s"

definition only_root :: "shell \<Rightarrow> bool" where
  "only_root s \<longleftrightarrow> set (loaded_urls s) \<subseteq> {''http://localhost:5000''}"

subsection \<open>Kinds of events\<close>

text \<open>The two events on which the shell leaves: the last window has closed, and the
  application quits.\<close>

fun is_exit :: "event \<Rightarrow> bool" where
  "is_exit WindowAllClosed = True"
| "is_exit Quit = True"
| "is_exit _ = False"

fun is_process_error :: "event \<Rightarrow> bool" where
  "is_process_error (ProcessError err) = True"
| "is_process_error _ = False"

fun is_activate :: "event \<Rightarrow> bool" where
  "is_activate Activate = True"
| "is_activate _ = False"

fun is_elapse :: "event \<Rightarrow> bool" where
  "is_elapse (Elapse d) = True"
| "is_elapse _ = False"

fun is_ready_text :: "event \<Rightarrow> bool" where
  "is_ready_text (StdoutData x) = str_includes x ''Running on''"
| "is_ready_text _ = False"

subsection \<open>The readiness wait, as the specification words it\<close>

text \<open>
  The time that has passed over a list of events, and the time at which the first chunk
  of the child's stdout with the readiness text arrives, if any does. The wait ends at the
  first of: that time plus the settle delay of one second, and the fallback of three
  seconds. Times count from the ready event.
\<close>

fun elapsed :: "event list \<Rightarrow> nat" where
  "elapsed [] = 0"
| "elapsed (Elapse d # es) = d + elapsed es"
| "elapsed (e # es) = elapsed es"

fun first_ready :: "nat \<Rightarrow> event list \<Rightarrow> nat option" where
  "first_ready t [] = None"
| "first_ready t (Elapse d # es) = first_ready (t + d) es"
| "first_ready t (StdoutData x # es) =
     (if str_includes x ''Running on'' then Some t else first_ready t es)"
| "first_ready t (e # es) = first_ready t es"

definition open_time :: "event list \<Rightarrow> nat" where
  "open_time es = (case first_ready 0 es of None \<Rightarrow> 3000 | Some t \<Rightarrow> min (t + 1000) 3000)"

subsection \<open>The state of the wait\<close>

text \<open>
  While the ready handler waits, the promise is pending and at least one timer holds its
  \<^verbatim>\<open>resolve\<close>; \<open>due\<close> is when the first of them fires. A promise that is neither pending
  nor still to be created is settled.
\<close>

definition settled :: "shell \<Rightarrow> bool" where
  "settled s \<longleftrightarrow> promise s \<noteq> Pending \<and> promise s \<noteq> NotCreated"

definition resolve_dues :: "shell \<Rightarrow> nat list" where
  "resolve_dues s = map fst (filter (\<lambda>(t, cb). cb = Resolve) (timers s))"

definition waiting :: "shell \<Rightarrow> bool" where
  "waiting s \<longleftrightarrow> promise s = Pending \<and> flaskProcess s \<noteq> None \<and> resolve_dues s \<noteq> [] \<and>
     list_all (\<lambda>t. now s \<le> t) (resolve_dues s)"

definition due :: "shell \<Rightarrow> nat" where
  "due s = Min (set (resolve_dues s))"

definition wait_end :: "shell \<Rightarrow> event list \<Rightarrow> nat" where
  "wait_end s es =
     (case first_ready (now s) es of None \<Rightarrow> due s | Some t \<Rightarrow> min (t + 1000) (due s))"

text \<open>What stays as it is once the promise has settled, and the windows of a run in which
  only the ready handler opened any.\<close>

definition after_settled :: "shell \<Rightarrow> shell \<Rightarrow> bool" where
  "after_settled s s' \<longleftrightarrow> settled s' \<and> promise s' = promise s \<and> resumed s' = resumed s \<and>
     set (opened s) \<subseteq> set (opened s')"

definition handler_windows :: "shell \<Rightarrow> bool" where
  "handler_windows s \<longleftrightarrow> opened s = resumed s"

section \<open>Properties\<close>

subsection \<open>Shared lemmas\<close>

lemmas handler_defs = emit_def setTimeout_def createWindow_def on_closed_def
  on_did_fail_load_def retry_load_def on_fulfilled_def on_rejected_def resolve_def
  reject_def startFlaskServer_def on_stdout_data_def on_stderr_data_def
  on_process_error_def on_ready_def on_window_all_closed_def on_activate_def on_quit_def

lemma run_append: "run (xs @ ys) s = run ys (run xs s)"
  by (induction xs arbitrary: s) auto

lemma run_ready: "run (AppReady # es) (init h) = run es (started h)"
  by (simp only: started_def run.simps)

lemma run_ready_snoc: "run (AppReady # es @ [e]) (init h) = step e (run es (started h))"
  by (simp only: started_def run.simps run_append)

lemma run_ready_cons:
  "run (AppReady # es @ e # es') (init h) = run es' (step e (run es (started h)))"
  by (simp only: started_def run.simps run_append)

text \<open>A property that survives every callback and does not depend on the clock or on the
  pending timers survives the passing of time.\<close>

lemma run_timers_cases:
  assumes "\<And>s t ts. P s \<Longrightarrow> P (s\<lparr>now := t, timers := ts\<rparr>)"
    and "\<And>s cb. P s \<Longrightarrow> P (fire cb s)"
    and "P s"
  shows "P (run_timers limit s)"
  using assms(3)
proof (induction limit s rule: run_timers.induct)
  case (1 limit s)
  have n: "P (s\<lparr>now := t\<rparr>)" for t
    using assms(1) [where s = s and t = t and ts = "timers s", OF "1.prems"] by simp
  show ?case
  proof (cases "earliest (timers s)")
    case None
    then show ?thesis by (subst run_timers.simps) (simp add: n)
  next
    case (Some x)
    obtain t cb where x: "x = (t, cb)" by (cases x)
    show ?thesis
    proof (cases "t \<le> limit")
      case True
      have "P (fire cb (s\<lparr>now := max (now s) t, timers := remove1 (t, cb) (timers s)\<rparr>))"
        by (intro assms(1,2) "1.prems")
      from "1.IH" [OF Some x [symmetric] True this] show ?thesis
        using Some x True by (subst run_timers.simps) simp
    next
      case False
      then show ?thesis using Some x by (subst run_timers.simps) (simp add: n)
    qed
  qed
qed

text \<open>Once spawned, the child stays the value of \<^verbatim>\<open>flaskProcess\<close>: nothing assigns to
  it again.\<close>

lemma spawned_fire: "spawned p s \<Longrightarrow> spawned p (fire cb s)"
  by (cases cb) (auto simp: spawned_def handler_defs Let_def split: option.splits)

lemma spawned_run_timers: "spawned p s \<Longrightarrow> spawned p (run_timers limit s)"
proof (rule run_timers_cases [where P = "spawned p"])
  show "spawned p (u\<lparr>now := t, timers := ts\<rparr>)" if "spawned p u" for u t ts
    using that by (simp add: spawned_def)
  show "spawned p (fire cb u)" if "spawned p u" for u cb
    using that by (rule spawned_fire)
qed

lemma spawned_step: "spawned p s \<Longrightarrow> spawned p (step e s)"
  by (cases e)
     (auto simp: spawned_run_timers,
      auto simp: spawned_def handler_defs Let_def split: option.splits)

lemma spawned_run: "spawned p s \<Longrightarrow> spawned p (run es s)"
  by (induction es arbitrary: s) (auto simp: spawned_step)

lemma spawned_started: "spawned (flask_child h) (started h)"
  by (simp add: started_def spawned_def init_def handler_defs Let_def)

subsection \<open>Termination of the child on exit\<close>

lemma kills_fire: "kills (fire cb s) = kills s"
  by (cases cb) (auto simp: kills_def handler_defs Let_def split: option.splits)

lemma kills_run_timers: "kills (run_timers limit s) = kills s"
proof (rule run_timers_cases [where P = "\<lambda>u. kills u = kills s"])
  show "kills (u\<lparr>now := t, timers := ts\<rparr>) = kills s" if "kills u = kills s" for u t ts
    using that by (simp add: kills_def)
  show "kills (fire cb u) = kills s" if "kills u = kills s" for u cb
    using that by (simp add: kills_fire)
qed simp

lemma kills_step:
  "spawned p s \<Longrightarrow> kills (step e s) = kills s + (if is_exit e then 1 else 0)"
  by (cases e)
     (auto simp: kills_run_timers,
      auto simp: kills_def spawned_def handler_defs Let_def split: option.splits)

lemma kills_run:
  "spawned p s \<Longrightarrow> kills (run es s) = kills s + length (filter is_exit es)"
  by (induction es arbitrary: s) (auto simp: kills_step spawned_step)

text \<open>
  C1, as stated: on exit the child is sent the termination signal, exactly once even
  when window-all-closed and quit both fire. It fails when the user closes the window:
  Electron emits closed on the window, then window-all-closed, whose handler calls
  \<^verbatim>\<open>app.quit()\<close>, then quit. Both handlers call \<^verbatim>\<open>flaskProcess.kill()\<close>, and
  \<^verbatim>\<open>flaskProcess\<close> is never reset: kill is called twice.
\<close>

theorem kill_twice_on_window_close:
  "kills (run [AppReady, Elapse 3000, Closed 0, WindowAllClosed, Quit] (init example_host)) = 2"
  by (simp add: kills_def init_def handler_defs Let_def run_timers.simps example_host_def)

text \<open>
  C1, amended: once the ready handler has spawned the child, every window-all-closed
  event and every quit event calls kill on it, once each, whatever else happens in
  between. The number of kill calls is the number of these events: one when a single
  exit event fires, two when both do.
\<close>

theorem kill_once_per_exit_event:
  "kills (run (AppReady # es) (init h)) = length (filter is_exit es)"
proof -
  have "kills (started h) = 0"
    by (simp add: started_def kills_def init_def handler_defs Let_def)
  with kills_run [OF spawned_started, of es h] show ?thesis
    unfolding run_ready by simp
qed

text \<open>
  C5: after the ready handler has run, whatever has happened since, the window-all-closed
  handler and the quit handler each call kill on the spawned child (and the former then
  calls \<^verbatim>\<open>app.quit()\<close>): the shell does not leave without terminating the child.
\<close>

theorem exit_kills_child:
  "let s = run (AppReady # es) (init h)
   in flaskProcess s = Some (flask_child h) \<and>
      trace (run (AppReady # es @ [WindowAllClosed]) (init h))
        = trace s @ [(now s, Kill), (now s, AppQuit)] \<and>
      trace (run (AppReady # es @ [Quit]) (init h)) = trace s @ [(now s, Kill)]"
proof -
  define s where "s = run es (started h)"
  have "spawned (flask_child h) s"
    unfolding s_def by (rule spawned_run [OF spawned_started])
  then have f: "flaskProcess s = Some (flask_child h)"
    by (simp add: spawned_def)
  have r0: "run (AppReady # es) (init h) = s"
    by (simp only: s_def run_ready)
  have r: "run (AppReady # es @ [e]) (init h) = step e s" for e
    by (simp only: s_def run_ready_snoc)
  show ?thesis
    unfolding Let_def r r0 using f by (simp add: handler_defs)
qed

subsection \<open>The spawn\<close>

lemma spawns_fire: "spawns (fire cb s) = spawns s"
  by (cases cb) (auto simp: spawns_def handler_defs Let_def split: option.splits)

lemma spawns_run_timers: "spawns (run_timers limit s) = spawns s"
proof (rule run_timers_cases [where P = "\<lambda>u. spawns u = spawns s"])
  show "spawns (u\<lparr>now := t, timers := ts\<rparr>) = spawns s" if "spawns u = spawns s" for u t ts
    using that by (simp add: spawns_def)
  show "spawns (fire cb u) = spawns s" if "spawns u = spawns s" for u cb
    using that by (simp add: spawns_fire)
qed simp

lemma spawns_step: "spawned p s \<Longrightarrow> spawns (step e s) = spawns s"
  by (cases e)
     (auto simp: spawns_run_timers,
      auto simp: spawns_def spawned_def handler_defs Let_def split: option.splits)

lemma spawns_run: "spawned p s \<Longrightarrow> spawns (run es s) = spawns s"
  by (induction es arbitrary: s) (auto simp: spawns_step spawned_step)

text \<open>
  C7: on every startup the shell spawns the API once, at the ready event, as the child
  process \<^verbatim>\<open>python3 app.py\<close> with the shell's own directory as working directory and with
  the inherited environment in which \<^verbatim>\<open>FLASK_ENV\<close> is set to \<^verbatim>\<open>production\<close> (an inherited
  value of \<^verbatim>\<open>FLASK_ENV\<close> is overridden, every other variable is passed on).
\<close>

theorem spawn_with_cwd_and_production_env:
  "spawns (run (AppReady # es) (init h)) = [(0, Spawn (flask_child h))] \<and>
   flaskProcess (run (AppReady # es) (init h)) = Some (flask_child h) \<and>
   command (flask_child h) = ''python3'' \<and> args (flask_child h) = [''app.py''] \<and>
   cwd (flask_child h) = dirname h \<and>
   map_of (env (flask_child h)) = (map_of (process_env h))(''FLASK_ENV'' \<mapsto> ''production'')"
proof -
  have "spawns (started h) = [(0, Spawn (flask_child h))]"
    by (simp add: started_def spawns_def init_def handler_defs Let_def)
  moreover have "spawned (flask_child h) (run es (started h))"
    by (rule spawned_run [OF spawned_started])
  ultimately show ?thesis
    using spawns_run [OF spawned_started, of es h]
    unfolding run_ready by (simp add: spawned_def flask_child_def update_conv')
qed

subsection \<open>Quitting when all windows are closed\<close>

text \<open>
  C10: the window-all-closed handler calls \<^verbatim>\<open>app.quit()\<close> in every state, on every
  platform (\<open>pf\<close> is any value of \<^verbatim>\<open>process.platform\<close>, which the handler does not read),
  and it is the last thing the handler does.
\<close>

theorem window_all_closed_quits_on_every_platform:
  "quits (run (es @ [WindowAllClosed]) (init (h\<lparr>platform := pf\<rparr>)))
     = Suc (quits (run es (init (h\<lparr>platform := pf\<rparr>)))) \<and>
   last (trace (run (es @ [WindowAllClosed]) (init (h\<lparr>platform := pf\<rparr>))))
     = (now (run es (init (h\<lparr>platform := pf\<rparr>))), AppQuit)"
  by (simp add: run_append quits_def handler_defs split: option.splits)

subsection \<open>The URL\<close>

lemma only_root_fire: "only_root s \<Longrightarrow> only_root (fire cb s)"
  by (cases cb)
     (auto simp: only_root_def loaded_urls_def root_url_def handler_defs Let_def
           split: option.splits)

lemma only_root_run_timers: "only_root s \<Longrightarrow> only_root (run_timers limit s)"
proof (rule run_timers_cases [where P = only_root])
  show "only_root (u\<lparr>now := t, timers := ts\<rparr>)" if "only_root u" for u t ts
    using that by (simp add: only_root_def loaded_urls_def)
  show "only_root (fire cb u)" if "only_root u" for u cb
    using that by (rule only_root_fire)
qed

lemma only_root_step: "only_root s \<Longrightarrow> only_root (step e s)"
  by (cases e)
     (auto simp: only_root_run_timers,
      auto simp: only_root_def loaded_urls_def root_url_def handler_defs Let_def
           split: option.splits)

lemma only_root_run: "only_root s \<Longrightarrow> only_root (run es s)"
  by (induction es arbitrary: s) (auto simp: only_root_step)

text \<open>
  C6: every URL passed to \<^verbatim>\<open>loadURL\<close> in any run (by \<^verbatim>\<open>createWindow\<close> after the wait, by
  \<^verbatim>\<open>createWindow\<close> on activate, by a retry) is \<^verbatim>\<open>http://localhost:5000\<close>.
\<close>

theorem every_load_is_root_url:
  "set (loaded_urls (run es (init h))) \<subseteq> {''http://localhost:5000''}"
proof -
  have "only_root (init h)"
    by (simp add: only_root_def loaded_urls_def init_def)
  from only_root_run [OF this] show ?thesis
    by (simp add: only_root_def)
qed

text \<open>The first load, a retry and the load of a window made on activate.\<close>

theorem every_load_is_root_url_witness:
  "loaded_urls (run [AppReady, Elapse 3000, DidFailLoad 0, Elapse 1000, Closed 0, Activate]
      (init example_host))
   = [''http://localhost:5000'', ''http://localhost:5000'', ''http://localhost:5000'']"
  using every_load_is_root_url
    [of "[AppReady, Elapse 3000, DidFailLoad 0, Elapse 1000, Closed 0, Activate]" example_host]
  by (simp add: loaded_urls_def init_def handler_defs Let_def run_timers.simps
        example_host_def root_url_def)

subsection \<open>Load failures\<close>

lemma pending_remove1:
  assumes "(t, cb) \<in> set xs"
  shows "length (filter (\<lambda>(t, cb). cb = RetryLoad) xs)
         = length (filter (\<lambda>(t, cb). cb = RetryLoad) (remove1 (t, cb) xs))
           + (if cb = RetryLoad then 1 else 0)"
  using assms by (induction xs) auto

lemmas count_defs = balanced_def load_calls_def windows_created_def load_failures_def
  pending_retries_def

lemma balanced_fire:
  assumes "balanced s" and "(t, cb) \<in> set (timers s)"
  shows "balanced (fire cb (s\<lparr>now := t', timers := remove1 (t, cb) (timers s)\<rparr>))"
proof (cases cb)
  case Resolve
  with assms pending_remove1 [OF assms(2)] show ?thesis
    by (auto simp: count_defs handler_defs Let_def)
next
  case RetryLoad
  with assms pending_remove1 [OF assms(2)] show ?thesis
    by (auto simp: count_defs handler_defs Let_def split: option.splits)
qed

lemma balanced_run_timers: "balanced s \<Longrightarrow> balanced (run_timers limit s)"
proof (induction limit s rule: run_timers.induct)
  case (1 limit s)
  have n: "balanced (s\<lparr>now := t\<rparr>)" for t
    using "1.prems" by (simp add: count_defs)
  show ?case
  proof (cases "earliest (timers s)")
    case None
    then show ?thesis by (subst run_timers.simps) (simp add: n)
  next
    case (Some x)
    obtain t cb where x: "x = (t, cb)" by (cases x)
    show ?thesis
    proof (cases "t \<le> limit")
      case True
      have "(t, cb) \<in> set (timers s)"
        using Some x by (simp add: earliest_mem)
      then have "balanced (fire cb (s\<lparr>now := max (now s) t,
                   timers := remove1 (t, cb) (timers s)\<rparr>))"
        by (rule balanced_fire [OF "1.prems"])
      from "1.IH" [OF Some x [symmetric] True this] show ?thesis
        using Some x True by (subst run_timers.simps) simp
    next
      case False
      then show ?thesis using Some x by (subst run_timers.simps) (simp add: n)
    qed
  qed
qed

lemma balanced_step: "balanced s \<Longrightarrow> balanced (step e s)"
  by (cases e)
     (auto simp: balanced_run_timers,
      auto simp: count_defs handler_defs Let_def split: option.splits)

lemma balanced_run: "balanced s \<Longrightarrow> balanced (run es s)"
  by (induction es arbitrary: s) (auto simp: balanced_step)

text \<open>
  C2, as stated: a load failure gets one retry and no more than one. It fails when the
  retried load fails too: the did-fail-load handler runs again and sets another retry,
  and so on as long as loads fail. Here the window's first load (at 3000 ms) and its
  retry (at 4000 ms) both fail, and the URL is loaded a third time at 5000 ms.
\<close>

theorem failed_retry_is_retried:
  "load_times (run [AppReady, Elapse 3000, DidFailLoad 0, Elapse 1000,
                    DidFailLoad 0, Elapse 1000] (init example_host)) = [3000, 4000, 5000]"
  by (simp add: load_times_def init_def handler_defs Let_def run_timers.simps
        example_host_def)

text \<open>
  C2, amended: every did-fail-load event of an open window, whether the failed load was
  the first or a retry, sets exactly one retry, due 1000 ms later. In every run the calls
  of \<^verbatim>\<open>loadURL\<close> made or still pending are one per window constructed plus one per
  failure handled: each failure has its one retry, and nothing limits how many failures
  are retried.
\<close>

theorem one_retry_per_load_failure:
  "load_calls (run es (init h)) + pending_retries (run es (init h))
     = windows_created (run es (init h)) + load_failures (run es (init h)) \<and>
   (w \<in> set (listening (run es (init h))) \<longrightarrow>
      timers (run (es @ [DidFailLoad w]) (init h))
        = timers (run es (init h)) @ [(now (run es (init h)) + 1000, RetryLoad)] \<and>
      load_failures (run (es @ [DidFailLoad w]) (init h))
        = Suc (load_failures (run es (init h))))"
proof -
  have "balanced (init h)"
    by (simp add: count_defs init_def)
  from balanced_run [OF this, of es] show ?thesis
    by (simp add: balanced_def run_append load_failures_def handler_defs)
qed

text \<open>A failure of the first load, three seconds after the ready event: the retry is
  due at 4000 ms.\<close>

theorem one_retry_per_load_failure_witness:
  "0 \<in> set (listening (run [AppReady, Elapse 3000] (init example_host))) \<and>
   timers (run [AppReady, Elapse 3000, DidFailLoad 0] (init example_host))
     = [(4000, RetryLoad)] \<and>
   load_failures (run [AppReady, Elapse 3000, DidFailLoad 0] (init example_host)) = 1"
proof -
  have "listening (run [AppReady, Elapse 3000] (init example_host)) = [0]"
    and "timers (run [AppReady, Elapse 3000] (init example_host)) = []"
    and "now (run [AppReady, Elapse 3000] (init example_host)) = 3000"
    and "load_failures (run [AppReady, Elapse 3000] (init example_host)) = 0"
    by (simp_all add: load_failures_def init_def handler_defs Let_def run_timers.simps)
  with one_retry_per_load_failure [of "[AppReady, Elapse 3000]" example_host 0]
  show ?thesis
    by simp
qed



subsection \<open>After the promise has settled\<close>

text \<open>Once the promise is fulfilled or rejected it stays so; the ready handler does not
  go on a second time; a window that was opened stays in the trace.\<close>

lemma after_settled_fire: "after_settled s s' \<Longrightarrow> after_settled s (fire cb s')"
  by (cases cb)
     (auto simp: after_settled_def settled_def opened_def resumed_def handler_defs Let_def
           split: option.splits)

lemma after_settled_run_timers:
  "after_settled s s' \<Longrightarrow> after_settled s (run_timers limit s')"
proof (rule run_timers_cases [where P = "after_settled s"])
  show "after_settled s (u\<lparr>now := t, timers := ts\<rparr>)" if "after_settled s u" for u t ts
    using that by (auto simp: after_settled_def settled_def opened_def resumed_def)
  show "after_settled s (fire cb u)" if "after_settled s u" for u cb
    using that by (rule after_settled_fire)
qed

lemma after_settled_step: "after_settled s s' \<Longrightarrow> after_settled s (step e s')"
  by (cases e)
     (auto simp: after_settled_run_timers,
      auto simp: after_settled_def settled_def opened_def resumed_def handler_defs Let_def
           split: option.splits)

lemma after_settled_run: "after_settled s s' \<Longrightarrow> after_settled s (run es s')"
  by (induction es arbitrary: s') (auto simp: after_settled_step)

lemma settled_run:
  assumes "settled s"
  shows "promise (run es s) = promise s \<and> resumed (run es s) = resumed s \<and>
         set (opened s) \<subseteq> set (opened (run es s))"
proof -
  have "after_settled s s"
    using assms by (simp add: after_settled_def)
  from after_settled_run [OF this] show ?thesis
    by (simp add: after_settled_def)
qed

lemma settled_run_timers:
  assumes "settled s"
  shows "promise (run_timers limit s) = promise s \<and> resumed (run_timers limit s) = resumed s \<and>
         set (opened s) \<subseteq> set (opened (run_timers limit s))"
proof -
  have "after_settled s s"
    using assms by (simp add: after_settled_def)
  from after_settled_run_timers [OF this] show ?thesis
    by (simp add: after_settled_def)
qed

text \<open>The timer picked first is due no later than any other.\<close>

lemma earliest_None: "earliest xs = None \<longleftrightarrow> xs = []"
  by (induction xs) (auto split: option.splits)

lemma earliest_le: "earliest xs = Some x \<Longrightarrow> y \<in> set xs \<Longrightarrow> fst x \<le> fst y"
  by (induction xs arbitrary: x) (auto simp: earliest_None split: option.splits if_splits)

lemma due_le: "t \<in> set (resolve_dues s) \<Longrightarrow> due s \<le> t"
  by (simp add: due_def)

lemma due_mem: "resolve_dues s \<noteq> [] \<Longrightarrow> due s \<in> set (resolve_dues s)"
  unfolding due_def by (rule Min_in) simp_all

lemma resolve_dues_mem: "t \<in> set (resolve_dues s) \<longleftrightarrow> (t, Resolve) \<in> set (timers s)"
  by (force simp: resolve_dues_def)

lemma resolve_dues_remove_retry:
  "filter (\<lambda>(t, cb). cb = Resolve) (remove1 (t, RetryLoad) xs)
   = filter (\<lambda>(t, cb). cb = Resolve) xs"
  by (induction xs) auto

text \<open>A retry that comes due while the shell waits leaves the wait as it is.\<close>

lemma waiting_fire_retry:
  assumes "waiting s" and "\<forall>t' \<in> set (resolve_dues s). t \<le> t'"
  defines "s1 \<equiv> fire RetryLoad (s\<lparr>now := max (now s) t,
                   timers := remove1 (t, RetryLoad) (timers s)\<rparr>)"
  shows "waiting s1 \<and> resolve_dues s1 = resolve_dues s \<and> resumed s1 = resumed s \<and>
         now s1 = max (now s) t"
  using assms(1,2) unfolding s1_def
  by (auto simp: waiting_def resolve_dues_def resumed_def list_all_iff
        resolve_dues_remove_retry handler_defs split: option.splits)

lemma waiting_before_due:
  assumes "waiting s" and "limit < due s"
  shows "waiting (run_timers limit s) \<and> resolve_dues (run_timers limit s) = resolve_dues s \<and>
         now (run_timers limit s) = max (now s) limit \<and>
         resumed (run_timers limit s) = resumed s"
  using assms
proof (induction limit s rule: run_timers.induct)
  case (1 limit s)
  have stay: "waiting (s\<lparr>now := max (now s) limit\<rparr>) \<and>
      resolve_dues (s\<lparr>now := max (now s) limit\<rparr>) = resolve_dues s \<and>
      resumed (s\<lparr>now := max (now s) limit\<rparr>) = resumed s"
    using "1.prems" due_le [of _ s]
    by (fastforce simp: waiting_def resolve_dues_def resumed_def list_all_iff)
  show ?case
  proof (cases "earliest (timers s)")
    case None
    then have "run_timers limit s = s\<lparr>now := max (now s) limit\<rparr>"
      by (subst run_timers.simps) simp
    with stay show ?thesis by simp
  next
    case (Some x)
    obtain t cb where x: "x = (t, cb)" by (cases x)
    show ?thesis
    proof (cases "t \<le> limit")
      case False
      with Some x have "run_timers limit s = s\<lparr>now := max (now s) limit\<rparr>"
        by (subst run_timers.simps) simp
      with stay show ?thesis by simp
    next
      case True
      have mem: "(t, cb) \<in> set (timers s)"
        using Some x by (simp add: earliest_mem)
      have cb: "cb = RetryLoad"
      proof (cases cb)
        case Resolve
        with mem have "due s \<le> t"
          by (simp add: due_le resolve_dues_mem)
        with True "1.prems"(2) show ?thesis by simp
      qed simp
      define s1 where "s1 = fire cb (s\<lparr>now := max (now s) t,
        timers := remove1 (t, cb) (timers s)\<rparr>)"
      have "\<forall>t' \<in> set (resolve_dues s). t \<le> t'"
        using True "1.prems"(2) due_le [of _ s] by fastforce
      from waiting_fire_retry [OF "1.prems"(1) this]
      have w: "waiting s1" "resolve_dues s1 = resolve_dues s" "resumed s1 = resumed s"
        "now s1 = max (now s) t"
        by (simp_all add: s1_def cb)
      then have "limit < due s1"
        using "1.prems"(2) by (simp add: due_def)
      from "1.IH" [OF Some x [symmetric] True w(1) [unfolded s1_def] this [unfolded s1_def]]
      have "waiting (run_timers limit s1) \<and>
            resolve_dues (run_timers limit s1) = resolve_dues s1 \<and>
            now (run_timers limit s1) = max (now s1) limit \<and>
            resumed (run_timers limit s1) = resumed s1"
        by (simp add: s1_def)
      moreover have "run_timers limit s = run_timers limit s1"
        using Some x True by (subst run_timers.simps) (simp add: s1_def)
      ultimately show ?thesis
        using w True by (simp add: max_def)
    qed
  qed
qed

lemma waiting_at_due:
  assumes "waiting s" and "due s \<le> limit"
  shows "promise (run_timers limit s) = Resolved \<and>
         resumed (run_timers limit s) = resumed s @ [due s] \<and>
         due s \<in> set (opened (run_timers limit s))"
  using assms
proof (induction limit s rule: run_timers.induct)
  case (1 limit s)
  have ne: "resolve_dues s \<noteq> []" and now_le: "now s \<le> due s"
    using "1.prems"(1) due_mem [of s] by (auto simp: waiting_def list_all_iff)
  have dm: "(due s, Resolve) \<in> set (timers s)"
    using due_mem [OF ne] by (simp add: resolve_dues_mem)
  then obtain x where Some: "earliest (timers s) = Some x"
    by (cases "earliest (timers s)") (auto simp: earliest_None)
  obtain t cb where x: "x = (t, cb)" by (cases x)
  have mem: "(t, cb) \<in> set (timers s)"
    using Some x by (simp add: earliest_mem)
  have t_le: "t \<le> due s"
    using earliest_le [OF Some dm] x by simp
  then have True: "t \<le> limit"
    using "1.prems"(2) by simp
  define s1 where "s1 = fire cb (s\<lparr>now := max (now s) t,
    timers := remove1 (t, cb) (timers s)\<rparr>)"
  have unfold: "run_timers limit s = run_timers limit s1"
    using Some x True by (subst run_timers.simps) (simp add: s1_def)
  show ?case
  proof (cases cb)
    case RetryLoad
    have "\<forall>t' \<in> set (resolve_dues s). t \<le> t'"
      using t_le due_le [of _ s] by fastforce
    from waiting_fire_retry [OF "1.prems"(1) this]
    have w: "waiting s1" "resolve_dues s1 = resolve_dues s" "resumed s1 = resumed s"
      by (simp_all add: s1_def RetryLoad)
    then have d: "due s1 = due s"
      by (simp add: due_def)
    then have "due s1 \<le> limit"
      using "1.prems"(2) by simp
    from "1.IH" [OF Some x [symmetric] True w(1) [unfolded s1_def] this [unfolded s1_def]]
    show ?thesis
      unfolding unfold using w d by (simp add: s1_def)
  next
    case Resolve
    with mem have "due s \<le> t"
      by (simp add: due_le resolve_dues_mem)
    with t_le have t: "t = due s" by simp
    have m: "max (now s) t = due s"
      using now_le t by simp
    have p: "promise s1 = Resolved" and r: "resumed s1 = resumed s @ [due s]"
      and o: "due s \<in> set (opened s1)"
      using "1.prems"(1) unfolding s1_def Resolve m
      by (simp_all add: waiting_def opened_def resumed_def handler_defs Let_def)
    have "settled s1"
      using p by (simp add: settled_def)
    from settled_run_timers [OF this, of limit] show ?thesis
      unfolding unfold using p r o by auto
  qed
qed

subsection \<open>The wait\<close>

lemma first_ready_ge: "first_ready t es = Some t' \<Longrightarrow> t \<le> t'"
  by (induction t es rule: first_ready.induct) (auto split: if_splits)

lemma waiting_step_inert:
  assumes "waiting s" and "\<not> is_process_error e" and "\<not> is_elapse e" and "\<not> is_ready_text e"
  shows "waiting (step e s) \<and> resolve_dues (step e s) = resolve_dues s \<and>
         now (step e s) = now s \<and> resumed (step e s) = resumed s"
  using assms
  by (cases e)
     (auto simp: waiting_def resolve_dues_def resumed_def handler_defs Let_def
           split: option.splits)

lemma inert_skipped:
  assumes "\<not> is_elapse e" and "\<not> is_ready_text e"
  shows "first_ready t (e # es) = first_ready t es \<and> elapsed (e # es) = elapsed es"
  using assms by (cases e) auto

lemma waiting_step_ready_text:
  assumes "waiting s" and "str_includes x ''Running on''"
  shows "waiting (step (StdoutData x) s) \<and>
         due (step (StdoutData x) s) = min (now s + 1000) (due s) \<and>
         now (step (StdoutData x) s) = now s \<and>
         resumed (step (StdoutData x) s) = resumed s"
proof -
  have "finite (set (resolve_dues s))" "set (resolve_dues s) \<noteq> {}"
    using assms(1) by (auto simp: waiting_def)
  then have "Min (insert (now s + 1000) (set (resolve_dues s)))
             = min (now s + 1000) (Min (set (resolve_dues s)))"
    by (rule Min_insert)
  moreover have "resolve_dues (step (StdoutData x) s) = resolve_dues s @ [now s + 1000]"
    using assms by (simp add: waiting_def resolve_dues_def handler_defs)
  ultimately show ?thesis
    using assms
    by (auto simp: due_def) (auto simp: waiting_def resumed_def handler_defs)
qed

lemma waiting_run:
  assumes "waiting s" and "now s < due s" and "\<not> list_ex is_process_error es"
  shows "if wait_end s es \<le> now s + elapsed es
         then promise (run es s) = Resolved \<and> resumed (run es s) = resumed s @ [wait_end s es] \<and>
              wait_end s es \<in> set (opened (run es s))
         else waiting (run es s) \<and> now (run es s) = now s + elapsed es \<and>
              resumed (run es s) = resumed s"
  using assms
proof (induction es arbitrary: s)
  case Nil
  then show ?case
    by (simp add: wait_end_def)
next
  case (Cons e es)
  have es: "\<not> list_ex is_process_error es" and e: "\<not> is_process_error e"
    using Cons.prems by simp_all
  have reduce: ?case
    if "waiting (step e s)" and "now (step e s) < due (step e s)"
      and "wait_end (step e s) es = wait_end s (e # es)"
      and "now (step e s) + elapsed es = now s + elapsed (e # es)"
      and "resumed (step e s) = resumed s"
    using Cons.IH [OF that(1,2) es] that(3-5) by (simp split: if_splits)
  show ?case
  proof (cases "is_elapse e")
    case True
    then obtain d where d: "e = Elapse d" by (cases e) auto
    show ?thesis
    proof (cases "now s + d < due s")
      case True
      note w = waiting_before_due [OF Cons.prems(1) True]
      show ?thesis
        by (rule reduce)
           (use w d True in \<open>simp_all add: wait_end_def due_def split: option.splits\<close>)
    next
      case False
      then have le: "due s \<le> now s + d" by simp
      note a = waiting_at_due [OF Cons.prems(1) le]
      have "wait_end s (e # es) = due s"
        using le first_ready_ge [of "now s + d" es]
        by (auto simp: wait_end_def d split: option.splits)
      moreover have "settled (step e s)"
        using a by (simp add: settled_def d)
      from settled_run [OF this, of es]
      have "promise (run es (step e s)) = Resolved"
        and "resumed (run es (step e s)) = resumed s @ [due s]"
        and "due s \<in> set (opened (run es (step e s)))"
        using a by (auto simp: d)
      ultimately show ?thesis
        using le by (simp add: d)
    qed
  next
    case False
    note ne = this
    show ?thesis
    proof (cases "is_ready_text e")
      case True
      then obtain x where x: "e = StdoutData x" "str_includes x ''Running on''"
        by (cases e) auto
      note w = waiting_step_ready_text [OF Cons.prems(1) x(2)]
      have we: "wait_end (step e s) es = wait_end s (e # es)"
        using w first_ready_ge [of "now s" es]
        by (auto simp: wait_end_def x split: option.splits)
      show ?thesis
        by (rule reduce) (use w x we Cons.prems(2) in simp_all)
    next
      case False
      note w = waiting_step_inert [OF Cons.prems(1) e ne False]
      note k = inert_skipped [OF ne False]
      show ?thesis
        by (rule reduce)
           (use w k Cons.prems(2) in \<open>simp_all add: wait_end_def due_def split: option.splits\<close>)
    qed
  qed
qed

text \<open>Apart from the ready handler, only the activate handler opens a window.\<close>

lemma handler_windows_fire: "handler_windows s \<Longrightarrow> handler_windows (fire cb s)"
  by (cases cb)
     (auto simp: handler_windows_def opened_def resumed_def handler_defs Let_def
           split: option.splits)

lemma handler_windows_run_timers: "handler_windows s \<Longrightarrow> handler_windows (run_timers limit s)"
proof (rule run_timers_cases [where P = handler_windows])
  show "handler_windows (u\<lparr>now := t, timers := ts\<rparr>)" if "handler_windows u" for u t ts
    using that by (simp add: handler_windows_def opened_def resumed_def)
  show "handler_windows (fire cb u)" if "handler_windows u" for u cb
    using that by (rule handler_windows_fire)
qed

lemma handler_windows_step:
  "handler_windows s \<Longrightarrow> \<not> is_activate e \<Longrightarrow> handler_windows (step e s)"
  by (cases e)
     (auto simp: handler_windows_run_timers,
      auto simp: handler_windows_def opened_def resumed_def handler_defs Let_def
           split: option.splits)

lemma handler_windows_run:
  "handler_windows s \<Longrightarrow> \<not> list_ex is_activate es \<Longrightarrow> handler_windows (run es s)"
  by (induction es arbitrary: s) (auto simp: handler_windows_step)

lemma opened_resumed:
  "\<not> list_ex is_activate es \<Longrightarrow> opened (run es (init h)) = resumed (run es (init h))"
  using handler_windows_run [of "init h" es]
  by (simp add: handler_windows_def opened_def resumed_def init_def)

subsection \<open>Startup\<close>

lemma waiting_ready:
  "waiting (started h)" "due (started h) = 3000" "now (started h) = 0"
  "resumed (started h) = []"
  by (simp_all add: started_def waiting_def due_def resolve_dues_def resumed_def init_def
        handler_defs Let_def)

lemma wait_end_ready: "wait_end (started h) es = open_time es"
  by (simp add: wait_end_def open_time_def waiting_ready split: option.splits)

lemma open_time_le: "open_time es \<le> 3000"
  by (simp add: open_time_def split: option.splits)

lemma open_time_ge: "1000 \<le> open_time es"
  by (simp add: open_time_def split: option.splits)

lemma ready_run_resolved:
  assumes "\<not> list_ex is_process_error es" and "open_time es \<le> elapsed es"
  shows "promise (run es (started h)) = Resolved"
    and "resumed (run es (started h)) = [open_time es]"
    and "open_time es \<in> set (opened (run es (started h)))"
  using waiting_run [OF waiting_ready(1) _ assms(1), of h] assms(2)
  by (simp_all add: wait_end_ready waiting_ready split: if_splits)

lemma ready_run_pending:
  assumes "\<not> list_ex is_process_error es" and "elapsed es < open_time es"
  shows "waiting (run es (started h))"
    and "now (run es (started h)) = elapsed es"
    and "resumed (run es (started h)) = []"
  using waiting_run [OF waiting_ready(1) _ assms(1), of h] assms(2)
  by (simp_all add: wait_end_ready waiting_ready split: if_splits)

text \<open>
  C3: in a startup in which the child emits no error, the promise the ready handler
  awaits is fulfilled, and the handler goes on to \<^verbatim>\<open>createWindow\<close>, at \<open>open_time\<close>: the
  first of one second after the first stdout chunk with the readiness text and three
  seconds after the ready event. Before that the promise is pending and the handler has
  opened nothing; from then on it has opened its window, once. When no activate event
  occurs this is the only window there is. The wait is never longer than three seconds,
  and lasts three seconds when the readiness text is never seen.
\<close>

theorem window_opens_at_first_of_ready_or_timeout:
  assumes "\<not> list_ex is_process_error es"
  shows "promise (run (AppReady # es) (init h))
           = (if open_time es \<le> elapsed es then Resolved else Pending) \<and>
         resumed (run (AppReady # es) (init h))
           = (if open_time es \<le> elapsed es then [open_time es] else []) \<and>
         (open_time es \<le> elapsed es \<longrightarrow>
            open_time es \<in> set (opened (run (AppReady # es) (init h)))) \<and>
         (\<not> list_ex is_activate es \<longrightarrow>
            opened (run (AppReady # es) (init h))
              = (if open_time es \<le> elapsed es then [open_time es] else [])) \<and>
         open_time es \<le> 3000 \<and>
         (first_ready 0 es = None \<longrightarrow> open_time es = 3000)"
proof -
  have "\<not> list_ex is_activate es \<Longrightarrow>
        opened (run (AppReady # es) (init h)) = resumed (run (AppReady # es) (init h))"
    by (rule opened_resumed) simp
  then have a: "\<not> list_ex is_activate es \<longrightarrow>
        opened (run es (started h)) = resumed (run es (started h))"
    unfolding run_ready by simp
  have b: "first_ready 0 es = None \<longrightarrow> open_time es = 3000"
    by (simp add: open_time_def)
  show ?thesis
  proof (cases "open_time es \<le> elapsed es")
    case True
    from ready_run_resolved [OF assms True, of h] a b True show ?thesis
      unfolding run_ready by (simp add: open_time_le)
  next
    case False
    then have "elapsed es < open_time es" by simp
    from ready_run_pending [OF assms this, of h] a b False show ?thesis
      unfolding run_ready by (simp add: open_time_le waiting_def)
  qed
qed

text \<open>Readiness text after 500 ms: the window opens at 1500 ms. After 2500 ms: at 3000 ms,
  by the fallback. No readiness text: nothing at 2999 ms, the window at 3000 ms.\<close>

theorem window_opens_at_first_of_ready_or_timeout_witness:
  "opened (run [AppReady, Elapse 500, StdoutData '' * Running on http://127.0.0.1:5000'',
                Elapse 1000] (init example_host)) = [1500] \<and>
   opened (run [AppReady, Elapse 2500, StdoutData '' * Running on http://127.0.0.1:5000'',
                Elapse 1000] (init example_host)) = [3000] \<and>
   opened (run [AppReady, StderrData ''Traceback'', Elapse 2999] (init example_host)) = [] \<and>
   opened (run [AppReady, StderrData ''Traceback'', Elapse 2999, Elapse 1] (init example_host))
     = [3000]"
  using window_opens_at_first_of_ready_or_timeout
      [of "[Elapse 500, StdoutData '' * Running on http://127.0.0.1:5000'', Elapse 1000]" example_host]
    window_opens_at_first_of_ready_or_timeout
      [of "[Elapse 2500, StdoutData '' * Running on http://127.0.0.1:5000'', Elapse 1000]" example_host]
    window_opens_at_first_of_ready_or_timeout
      [of "[StderrData ''Traceback'', Elapse 2999]" example_host]
    window_opens_at_first_of_ready_or_timeout
      [of "[StderrData ''Traceback'', Elapse 2999, Elapse 1]" example_host]
  by (simp add: open_time_def)

text \<open>
  C4: when the child emits its error while the ready handler still waits (a failed spawn
  reports at once, and the wait lasts a second at least), the handler logs the error and
  calls \<^verbatim>\<open>app.quit()\<close> at that moment; the promise stays rejected and the ready handler
  never opens a window, whatever events follow. When no activate event occurs, no window
  is ever constructed.
\<close>

theorem spawn_error_aborts_startup:
  assumes "\<not> list_ex is_process_error pre" and "elapsed pre < open_time pre"
  shows "trace (run (AppReady # pre @ [ProcessError err]) (init h))
         = trace (run (AppReady # pre) (init h)) @
           [(elapsed pre, ConsoleError (''Failed to start Flask: '' @ err)),
            (elapsed pre, ConsoleError (''Failed to start application: '' @ err)),
            (elapsed pre, AppQuit)] \<and>
         promise (run (AppReady # pre @ ProcessError err # post) (init h)) = Rejected err \<and>
         resumed (run (AppReady # pre @ ProcessError err # post) (init h)) = [] \<and>
         (\<not> list_ex is_activate (pre @ post) \<longrightarrow>
            opened (run (AppReady # pre @ ProcessError err # post) (init h)) = []) \<and>
         1000 \<le> open_time pre"
proof -
  define s0 where "s0 = run pre (started h)"
  define s1 where "s1 = step (ProcessError err) s0"
  have w: "waiting s0" "now s0 = elapsed pre" "resumed s0 = []"
    using ready_run_pending [OF assms, of h]
    by (simp_all add: s0_def)
  have t: "trace s1 = trace s0 @
      [(elapsed pre, ConsoleError (''Failed to start Flask: '' @ err)),
       (elapsed pre, ConsoleError (''Failed to start application: '' @ err)),
       (elapsed pre, AppQuit)]"
    and p: "promise s1 = Rejected err" and r: "resumed s1 = []"
    using w by (simp_all add: s1_def waiting_def resumed_def handler_defs)
  have "settled s1"
    using p by (simp add: settled_def)
  from settled_run [OF this, of post] p r
  have f: "promise (run post s1) = Rejected err" "resumed (run post s1) = []"
    by simp_all
  have e1: "run (AppReady # pre @ [ProcessError err]) (init h) = s1"
    by (simp only: s0_def s1_def run_ready_snoc)
  have e0: "run (AppReady # pre) (init h) = s0"
    by (simp only: s0_def run_ready)
  have e2: "run (AppReady # pre @ ProcessError err # post) (init h) = run post s1"
    by (simp only: s0_def s1_def run_ready_cons)
  have "opened (run (AppReady # pre @ ProcessError err # post) (init h))
        = resumed (run (AppReady # pre @ ProcessError err # post) (init h))"
    if "\<not> list_ex is_activate (pre @ post)"
    by (rule opened_resumed) (use that in simp)
  then show ?thesis
    unfolding e0 e1 e2 using t f open_time_ge [of pre] by simp
qed

text \<open>\<^verbatim>\<open>python3\<close> is not installed: the error arrives right after the ready event.\<close>

theorem spawn_error_aborts_startup_witness:
  "trace (run [AppReady, StderrData ''spawn python3'', ProcessError ''ENOENT''] (init example_host))
   = trace (run [AppReady, StderrData ''spawn python3''] (init example_host)) @
     [(0, ConsoleError ''Failed to start Flask: ENOENT''),
      (0, ConsoleError ''Failed to start application: ENOENT''),
      (0, AppQuit)] \<and>
   opened (run [AppReady, StderrData ''spawn python3'', ProcessError ''ENOENT'', Elapse 3000, Quit]
     (init example_host)) = []"
  using spawn_error_aborts_startup [of "[StderrData ''spawn python3'']" "''ENOENT''" example_host
      "[Elapse 3000, Quit]"]
  by (simp add: open_time_def)

text \<open>
  C9: when the child emits an error only after the wait has ended (at the latest three
  seconds after the ready event, by the fallback), the promise is already fulfilled and
  the window is open; \<^verbatim>\<open>reject\<close> does nothing, and all that the error changes is one line
  on the console: \<^verbatim>\<open>app.quit()\<close> is not called, the window stays.
\<close>

theorem late_spawn_error_is_ignored:
  assumes "\<not> list_ex is_process_error es" and "open_time es \<le> elapsed es"
  shows "promise (run (AppReady # es) (init h)) = Resolved \<and>
         open_time es \<in> set (opened (run (AppReady # es) (init h))) \<and>
         open_time es \<le> 3000 \<and>
         run (AppReady # es @ [ProcessError err]) (init h)
         = (run (AppReady # es) (init h))
             \<lparr>trace := trace (run (AppReady # es) (init h)) @
                [(now (run (AppReady # es) (init h)),
                  ConsoleError (''Failed to start Flask: '' @ err))]\<rparr>"
proof -
  define s where "s = run es (started h)"
  have r: "promise s = Resolved" "open_time es \<in> set (opened s)"
    using ready_run_resolved [OF assms, of h]
    by (simp_all add: s_def)
  have "spawned (flask_child h) s"
    unfolding s_def by (rule spawned_run [OF spawned_started])
  then have "step (ProcessError err) s
             = s\<lparr>trace := trace s @ [(now s, ConsoleError (''Failed to start Flask: '' @ err))]\<rparr>"
    using r(1) by (simp add: spawned_def handler_defs)
  moreover have "run (AppReady # es @ [ProcessError err]) (init h) = step (ProcessError err) s"
    by (simp only: s_def run_ready_snoc)
  moreover have "run (AppReady # es) (init h) = s"
    by (simp only: s_def run_ready)
  ultimately show ?thesis
    using r open_time_le [of es] by simp
qed

text \<open>The fallback opens the window at three seconds; an error arrives after it.\<close>

theorem late_spawn_error_is_ignored_witness:
  "opened (run [AppReady, Elapse 3000] (init example_host)) = [3000] \<and>
   trace (run [AppReady, Elapse 3000, ProcessError ''EPIPE''] (init example_host))
   = trace (run [AppReady, Elapse 3000] (init example_host)) @
       [(3000, ConsoleError ''Failed to start Flask: EPIPE'')]"
proof -
  have "now (run [AppReady, Elapse 3000] (init example_host)) = 3000"
    and "opened (run [AppReady, Elapse 3000] (init example_host)) = [3000]"
    by (simp_all add: opened_def init_def handler_defs Let_def run_timers.simps)
  with late_spawn_error_is_ignored [of "[Elapse 3000]" example_host "''EPIPE''"]
  show ?thesis
    by (simp add: open_time_def)
qed

end
